theory Spec2Isabelle
  imports Complex_Main
begin

section \<open>Data model of \<open>mcts.py\<close>\<close>

text \<open>
  Python objects are mutable and shared: a node holds a reference to its parent and its
  parent holds a reference to it. The embedding is an explicit store: nodes live at
  addresses, \<open>parent\<close> and \<open>children\<close> hold addresses, and every operation that mutates a
  node returns the updated store.

  Numbers: \<open>w\<close>, \<open>q\<close>, \<open>p\<close>, \<open>c_puct\<close> and \<open>temperature\<close> are Python floats and are
  idealised as \<^typ>\<open>real\<close>; rounding, overflow and NaN are outside the model. The visit
  count is set to \<open>0\<close> by the constructor and only ever changed by \<open>+= 1\<close>, so it is a
  \<^typ>\<open>nat\<close>.
\<close>

type_synonym addr = nat

datatype error = ZeroDivisionError | ValueError | IndexError | OverflowError

record 's Node =
  node_n :: nat
  node_w :: real
  node_q :: real
  node_p :: real
  parent :: "addr option"
  node_a :: "int option"
  node_s :: 's
  to_play :: int
  children :: "addr list"

text \<open>\<open>Node.__init__(parent, a, s, to_play, p)\<close>.\<close>

definition Node_init :: "addr option \<Rightarrow> int option \<Rightarrow> 's \<Rightarrow> int \<Rightarrow> real \<Rightarrow> 's Node" where
  "Node_init par act st tp pr =
     \<lparr>node_n = 0, node_w = 0, node_q = 0, node_p = pr, parent = par, node_a = act,
      node_s = st, to_play = tp, children = []\<rparr>"

text \<open>
  The store: \<open>nodes\<close> gives the object at each address and \<open>fresh\<close> is the next address
  that object creation hands out.
\<close>

record 's Tree =
  nodes :: "addr \<Rightarrow> 's Node"
  fresh :: addr

definition is_leaf :: "'s Node \<Rightarrow> bool" where
  "is_leaf self = (length (children self) = 0)"

section \<open>Selection score\<close>

text \<open>\<open>- self.q + c_puct * self.p * sqrt_sum_n / (1 + self.n)\<close>; \<open>1 + self.n\<close> is never zero.\<close>

definition get_exploring_score :: "'s Node \<Rightarrow> real \<Rightarrow> real \<Rightarrow> real" where
  "get_exploring_score self sqrt_sum_n c_puct =
     - node_q self + c_puct * node_p self * sqrt_sum_n / (1 + real (node_n self))"

text \<open>
  Python's \<open>max(iterable, key=f)\<close>: \<open>ValueError\<close> on an empty iterable; otherwise the
  running maximum is replaced only by a strictly greater key, so the first maximal
  element wins.
\<close>

fun max_loop :: "('a \<Rightarrow> real) \<Rightarrow> 'a \<Rightarrow> 'a list \<Rightarrow> 'a" where
  "max_loop key best [] = best"
| "max_loop key best (x # xs) = max_loop key (if key x > key best then x else best) xs"

definition py_max_key :: "('a \<Rightarrow> real) \<Rightarrow> 'a list \<Rightarrow> error + 'a" where
  "py_max_key key xs = (case xs of [] \<Rightarrow> Inl ValueError | x # rest \<Rightarrow> Inr (max_loop key x rest))"

definition get_best_child_to_explore :: "'s Tree \<Rightarrow> addr \<Rightarrow> real \<Rightarrow> error + addr" where
  "get_best_child_to_explore t self c_puct =
     (let sqrt_sum_n = sqrt (real (sum_list (map (\<lambda>child. node_n (nodes t child))
                                                (children (nodes t self)))))
      in py_max_key (\<lambda>x. get_exploring_score (nodes t x) sqrt_sum_n c_puct)
                    (children (nodes t self)))"

text \<open>
  \<open>select\<close>: \<open>while not node.is_leaf(): node = node.get_best_child_to_explore()\<close>, with the
  default \<open>c_puct = 1\<close>. The loop follows references and nothing in the code bounds it, so
  not returning is the value \<open>None\<close>; an exception is \<open>Some (Inl e)\<close>.
\<close>

partial_function (option) select :: "'s Tree \<Rightarrow> addr \<Rightarrow> (error + addr) option" where
  "select t node =
     (if is_leaf (nodes t node) then Some (Inr node)
      else (case get_best_child_to_explore t node 1 of
              Inl e \<Rightarrow> Some (Inl e)
            | Inr child \<Rightarrow> select t child))"

section \<open>Expansion and evaluation\<close>

text \<open>
  The rules engine \<open>env\<close> and the evaluator \<open>m\<close> are not part of the repository; they are
  parameters. \<open>turn\<close> and \<open>board\<close> are members of the state object (\<open>s.turn()\<close>,
  \<open>leaf.s.board\<close>); \<open>transition\<close> returns a triple of which only the state is used. All of
  them are taken to be pure functions that return.
\<close>

record ('s, 'b) Env =
  action_space_size :: int
  is_terminal :: "'s \<Rightarrow> bool"
  compute_reward :: "'s \<Rightarrow> real"
  is_legal :: "int \<Rightarrow> 's \<Rightarrow> bool"
  transition :: "'s \<Rightarrow> int \<Rightarrow> 's"
  turn :: "'s \<Rightarrow> 's"
  board :: "'s \<Rightarrow> 'b"

type_synonym 'b Model = "'b \<Rightarrow> real list \<times> real"

definition set_node :: "'s Tree \<Rightarrow> addr \<Rightarrow> 's Node \<Rightarrow> 's Tree" where
  "set_node t x nd = t\<lparr>nodes := (nodes t)(x := nd)\<rparr>"

text \<open>\<open>child = Node(...)\<close> creates an object at a new address; \<open>leaf.children.append(child)\<close>.\<close>

definition add_child :: "'s Tree \<Rightarrow> addr \<Rightarrow> 's Node \<Rightarrow> 's Tree" where
  "add_child t leaf child =
     (let c = fresh t;
          t1 = t\<lparr>nodes := (nodes t)(c := child), fresh := Suc c\<rparr>
      in set_node t1 leaf ((nodes t1 leaf)\<lparr>children := children (nodes t1 leaf) @ [c]\<rparr>))"

definition enumerate_py :: "'a list \<Rightarrow> (int \<times> 'a) list" where
  "enumerate_py xs = zip (map int [0..<length xs]) xs"

fun expand_loop :: "('s, 'b) Env \<Rightarrow> addr \<Rightarrow> (int \<times> real) list \<Rightarrow> 's Tree \<Rightarrow> 's Tree" where
  "expand_loop env leaf [] t = t"
| "expand_loop env leaf ((a, p) # rest) t =
     (if \<not> is_legal env a (node_s (nodes t leaf)) then expand_loop env leaf rest t
      else let s = turn env (transition env (node_s (nodes t leaf)) a);
               child = Node_init (Some leaf) (Some a) s ((to_play (nodes t leaf) + 1) mod 2) p
           in expand_loop env leaf rest (add_child t leaf child))"

definition expand_and_evaluate :: "'s Tree \<Rightarrow> addr \<Rightarrow> 'b Model \<Rightarrow> ('s, 'b) Env \<Rightarrow> 's Tree" where
  "expand_and_evaluate t leaf m env =
     (if is_terminal env (node_s (nodes t leaf))
      then set_node t leaf ((nodes t leaf)\<lparr>node_w :=
             node_w (nodes t leaf) + compute_reward env (node_s (nodes t leaf))\<rparr>)
      else (case m (board env (node_s (nodes t leaf))) of
              (ps, v) \<Rightarrow>
                expand_loop env leaf (enumerate_py ps)
                  (set_node t leaf ((nodes t leaf)\<lparr>node_w := v\<rparr>))))"

section \<open>Backup\<close>

text \<open>
  One pass of the body of \<open>while leaf is not None\<close>: \<open>leaf.n += 1\<close>,
  \<open>leaf.w += v if leaf.to_play == to_play else -v\<close>, \<open>leaf.q = leaf.w / leaf.n\<close>. The
  divisor is the count just incremented, so the division cannot fail.
\<close>

definition backup_step :: "int \<Rightarrow> real \<Rightarrow> 's Node \<Rightarrow> 's Node" where
  "backup_step tp v nd =
     (let nd1 = nd\<lparr>node_n := node_n nd + 1\<rparr>;
          nd2 = nd1\<lparr>node_w := node_w nd1 + (if to_play nd1 = tp then v else - v)\<rparr>
      in nd2\<lparr>node_q := node_w nd2 / real (node_n nd2)\<rparr>)"

partial_function (option) backup_loop ::
    "int \<Rightarrow> real \<Rightarrow> 's Tree \<Rightarrow> addr option \<Rightarrow> 's Tree option" where
  "backup_loop tp v t leaf =
     (case leaf of
        None \<Rightarrow> Some t
      | Some x \<Rightarrow> backup_loop tp v (set_node t x (backup_step tp v (nodes t x)))
                    (parent (backup_step tp v (nodes t x))))"

definition backup :: "'s Tree \<Rightarrow> addr \<Rightarrow> 's Tree option" where
  "backup t leaf =
     (let tp = to_play (nodes t leaf);
          v = node_w (nodes t leaf);
          nd1 = (nodes t leaf)\<lparr>node_n := node_n (nodes t leaf) + 1\<rparr>;
          nd2 = nd1\<lparr>node_q := node_w nd1 / real (node_n nd1)\<rparr>
      in backup_loop tp v (set_node t leaf nd2) (parent nd2))"

section \<open>Policy extraction and play\<close>

text \<open>
  Python's true division raises on a zero divisor.
\<close>

definition py_div :: "real \<Rightarrow> real \<Rightarrow> error + real" where
  "py_div x y = (if y = 0 then Inl ZeroDivisionError else Inr (x / y))"

text \<open>
  The largest binary64 number is \<open>2^1024 - 2^971\<close>; a real result of at least
  \<open>2^1024 - 2^970\<close> rounds beyond it.
\<close>

definition overflow_threshold :: real where
  "overflow_threshold = 2 ^ 1024 - 2 ^ 970"

text \<open>
  \<open>int ** float\<close> with a non-negative base (the base is always a visit count). The base is
  converted to a float first, which raises \<open>OverflowError\<close> for an integer beyond the
  range; then \<open>x ** 0.0\<close> is \<open>1.0\<close>, \<open>0.0 ** y\<close> raises \<open>ZeroDivisionError\<close> for negative
  \<open>y\<close> and is \<open>0.0\<close> for positive \<open>y\<close>, and a power that overflows raises
  \<open>OverflowError\<close>.
\<close>

definition py_pow :: "real \<Rightarrow> real \<Rightarrow> error + real" where
  "py_pow x y =
     (if overflow_threshold \<le> x then Inl OverflowError
      else if y = 0 then Inr 1
      else if x = 0 then (if y < 0 then Inl ZeroDivisionError else Inr 0)
      else if overflow_threshold \<le> x powr y then Inl OverflowError
      else Inr (x powr y))"

text \<open>The expression \<open>child.n ** (1 / temperature)\<close>; the division is evaluated first.\<close>

definition n_pow :: "'s Node \<Rightarrow> real \<Rightarrow> error + real" where
  "n_pow child temperature =
     (case py_div 1 temperature of
        Inl e \<Rightarrow> Inl e
      | Inr ex \<Rightarrow> py_pow (real (node_n child)) ex)"

text \<open>A generator or comprehension evaluates its elements in order and stops at the first exception.\<close>

fun try_map :: "('a \<Rightarrow> error + 'b) \<Rightarrow> 'a list \<Rightarrow> error + 'b list" where
  "try_map f [] = Inr []"
| "try_map f (x # xs) =
     (case f x of
        Inl e \<Rightarrow> Inl e
      | Inr y \<Rightarrow> (case try_map f xs of Inl e \<Rightarrow> Inl e | Inr ys \<Rightarrow> Inr (y # ys)))"

text \<open>A dict built from key-value pairs in order: a later pair replaces an earlier one with the same key.\<close>

definition dict_of :: "('k \<times> 'v) list \<Rightarrow> ('k \<rightharpoonup> 'v)" where
  "dict_of kvs = fold (\<lambda>(k, v) d. d(k \<mapsto> v)) kvs Map.empty"

definition py_range :: "int \<Rightarrow> int list" where
  "py_range k = map int [0..<nat k]"

definition get_policy :: "'s Tree \<Rightarrow> addr \<Rightarrow> real \<Rightarrow> int \<Rightarrow> error + real list" where
  "get_policy t self temperature action_space =
     (case try_map (\<lambda>child. n_pow (nodes t child) temperature) (children (nodes t self)) of
        Inl e \<Rightarrow> Inl e
      | Inr ws \<Rightarrow>
          (let sum_n = sum_list ws in
           case try_map (\<lambda>child.
                   case n_pow (nodes t child) temperature of
                     Inl e \<Rightarrow> Inl e
                   | Inr x \<Rightarrow> (case py_div x sum_n of
                                 Inl e \<Rightarrow> Inl e
                               | Inr y \<Rightarrow> Inr (node_a (nodes t child), y)))
                 (children (nodes t self)) of
             Inl e \<Rightarrow> Inl e
           | Inr kvs \<Rightarrow>
               (let sparse_policy = dict_of kvs
                in Inr (map (\<lambda>a. case sparse_policy (Some a) of None \<Rightarrow> 0 | Some y \<Rightarrow> y)
                            (py_range action_space)))))"

text \<open>
  \<open>random.choices(self.children, weights=scores)[0]\<close> is the standard library's sampler;
  it is the parameter \<open>choices\<close>. Everything before the call is the code's own.
\<close>

definition get_best_child_to_play ::
    "(addr list \<Rightarrow> real list \<Rightarrow> error + addr) \<Rightarrow> 's Tree \<Rightarrow> addr \<Rightarrow> real \<Rightarrow> error + addr" where
  "get_best_child_to_play choices t self temperature =
     (case try_map (\<lambda>child. n_pow (nodes t child) temperature) (children (nodes t self)) of
        Inl e \<Rightarrow> Inl e
      | Inr ws \<Rightarrow>
          (let sum_n = sum_list ws in
           case try_map (\<lambda>child.
                   case n_pow (nodes t child) temperature of
                     Inl e \<Rightarrow> Inl e
                   | Inr x \<Rightarrow> py_div x sum_n)
                 (children (nodes t self)) of
             Inl e \<Rightarrow> Inl e
           | Inr scores \<Rightarrow> choices (children (nodes t self)) scores))"

section \<open>Search driver\<close>

text \<open>
  \<open>for _ in range(num_simulations)\<close>: the loop variable is unused; an exception or a call
  that does not return ends the loop. The tree is mutated in place, so the final store is
  part of the result. \<open>None\<close> for an argument stands for leaving it out
  (\<open>num_simulations = 800\<close>, \<open>temperature = 1\<close>).
\<close>

fun search_loop ::
    "int list \<Rightarrow> 's Tree \<Rightarrow> addr \<Rightarrow> 'b Model \<Rightarrow> ('s, 'b) Env \<Rightarrow> (error + 's Tree) option" where
  "search_loop [] t root_node m env = Some (Inr t)"
| "search_loop (i # rest) t root_node m env =
     (case select t root_node of
        None \<Rightarrow> None
      | Some (Inl e) \<Rightarrow> Some (Inl e)
      | Some (Inr leaf) \<Rightarrow>
          (case backup (expand_and_evaluate t leaf m env) leaf of
             None \<Rightarrow> None
           | Some t' \<Rightarrow> search_loop rest t' root_node m env))"

definition search ::
    "'s Tree \<Rightarrow> addr \<Rightarrow> 'b Model \<Rightarrow> ('s, 'b) Env \<Rightarrow> int option \<Rightarrow> real option
       \<Rightarrow> (error + 's Tree \<times> real list) option" where
  "search t root_node m env num_simulations temperature =
     (let num = (case num_simulations of None \<Rightarrow> 800 | Some k \<Rightarrow> k);
          temp = (case temperature of None \<Rightarrow> 1 | Some x \<Rightarrow> x)
      in case search_loop (py_range num) t root_node m env of
           None \<Rightarrow> None
         | Some (Inl e) \<Rightarrow> Some (Inl e)
         | Some (Inr t') \<Rightarrow>
             (case get_policy t' root_node temp (action_space_size env) of
                Inl e \<Rightarrow> Some (Inl e)
              | Inr pol \<Rightarrow> Some (Inr (t', pol))))"

section \<open>Notions used to state the properties\<close>

text \<open>
  \<open>ancestors_are t p xs\<close>: following \<open>parent\<close> references from \<open>p\<close> visits exactly the
  nodes \<open>xs\<close>, in that order, and then reaches \<open>None\<close>, the parent of the root.
\<close>

fun ancestors_are :: "'s Tree \<Rightarrow> addr option \<Rightarrow> addr list \<Rightarrow> bool" where
  "ancestors_are t None xs = (xs = [])"
| "ancestors_are t (Some x) [] = False"
| "ancestors_are t (Some x) (y # ys) = (x = y \<and> ancestors_are t (parent (nodes t x)) ys)"

text \<open>
  \<open>descent t x cs y\<close>: starting at \<open>x\<close>, replacing the current node by its
  \<open>get_best_child_to_explore\<close> result visits the nodes \<open>cs\<close> in turn and ends at \<open>y\<close>.
\<close>

fun descent :: "'s Tree \<Rightarrow> addr \<Rightarrow> addr list \<Rightarrow> addr \<Rightarrow> bool" where
  "descent t x [] y = (x = y)"
| "descent t x (c # cs) y =
     (\<not> is_leaf (nodes t x) \<and> get_best_child_to_explore t x 1 = Inr c \<and> descent t c cs y)"


text \<open>
  A store laid out in creation order, as the code builds it: a node is created after its
  parent, so children have larger addresses than their parent, every child exists, and a
  parent reference points to a smaller address.
\<close>

definition tree_ok :: "'s Tree \<Rightarrow> bool" where
  "tree_ok t =
     ((\<forall>x. \<forall>c \<in> set (children (nodes t x)). x < c \<and> c < fresh t)
      \<and> (\<forall>x p. parent (nodes t x) = Some p \<longrightarrow> p < x))"

text \<open>
  One simulation as the specification words it: select from the root, then expand and
  evaluate the leaf that select returned, then back up from that leaf; \<open>t'\<close> is the store
  afterwards.
\<close>

definition simulation_step ::
    "'s Tree \<Rightarrow> addr \<Rightarrow> 'b Model \<Rightarrow> ('s, 'b) Env \<Rightarrow> 's Tree \<Rightarrow> bool" where
  "simulation_step t root_node m env t' =
     (case select t root_node of
        Some (Inr leaf) \<Rightarrow> backup (expand_and_evaluate t leaf m env) leaf = Some t'
      | _ \<Rightarrow> False)"

section \<open>Example stores\<close>

text \<open>
  Small concrete trees, a toy rules engine (three actions, action 1 never legal, a state
  is terminal from 2 on, reward 1) and a constant evaluator, used to run the definitions.
\<close>

definition tree_two_visited :: "unit Tree" where
  "tree_two_visited =
     \<lparr>nodes = (\<lambda>_. Node_init None None () 0 0)
        (0 := (Node_init None None () 0 0)\<lparr>children := [1, 2]\<rparr>,
         1 := (Node_init (Some 0) (Some 0) () 1 (1/2))\<lparr>node_n := 3, node_w := 1, node_q := 1/3\<rparr>,
         2 := (Node_init (Some 0) (Some 1) () 1 (1/2))\<lparr>node_n := 1\<rparr>),
      fresh = 3\<rparr>"



definition choose_first :: "addr list \<Rightarrow> real list \<Rightarrow> error + addr" where
  "choose_first population weights = (case population of [] \<Rightarrow> Inl IndexError | x # _ \<Rightarrow> Inr x)"

definition tree_play :: "unit Tree" where
  "tree_play =
     \<lparr>nodes = (\<lambda>_. Node_init None None () 0 0)
        (0 := (Node_init None None () 0 0)\<lparr>node_n := 3, children := [1, 2]\<rparr>,
         1 := (Node_init (Some 0) (Some 0) () 1 (1/2))\<lparr>node_n := 2\<rparr>,
         2 := (Node_init (Some 0) (Some 1) () 1 (1/2))\<lparr>node_n := 1\<rparr>),
      fresh = 3\<rparr>"

definition tree_single_leaf :: "unit Tree" where
  "tree_single_leaf = \<lparr>nodes = (\<lambda>_. Node_init None None () 0 0), fresh = 1\<rparr>"

definition chain3 :: "unit Tree" where
  "chain3 =
     \<lparr>nodes = (\<lambda>_. Node_init None None () 0 0)
        (0 := (Node_init None None () 0 0)\<lparr>children := [1]\<rparr>,
         1 := (Node_init (Some 0) (Some 0) () 1 0)\<lparr>children := [2]\<rparr>,
         2 := (Node_init (Some 1) (Some 0) () 0 0)\<lparr>node_w := 1\<rparr>),
      fresh = 3\<rparr>"

definition tree_depth2 :: "unit Tree" where
  "tree_depth2 =
     \<lparr>nodes = (\<lambda>_. Node_init None None () 0 0)
        (0 := (Node_init None None () 0 0)\<lparr>node_n := 2, children := [1, 2]\<rparr>,
         1 := (Node_init (Some 0) (Some 0) () 1 (1/2))\<lparr>node_n := 1, children := [3]\<rparr>,
         2 := Node_init (Some 0) (Some 1) () 1 (1/2),
         3 := Node_init (Some 1) (Some 0) () 0 1),
      fresh = 4\<rparr>"

definition toy_env :: "(nat, nat) Env" where
  "toy_env = \<lparr>action_space_size = 3,
             is_terminal = (\<lambda>s. 2 \<le> s),
             compute_reward = (\<lambda>s. 1),
             is_legal = (\<lambda>a s. a \<noteq> 1),
             transition = (\<lambda>s a. s + 1),
             turn = (\<lambda>s. s),
             board = (\<lambda>s. s)\<rparr>"

definition toy_model :: "nat Model" where
  "toy_model b = ([1/5, 1/2, 3/10], 7/10)"

definition toy_root :: "nat Tree" where
  "toy_root = \<lparr>nodes = (\<lambda>_. Node_init None None 0 0 0), fresh = 1\<rparr>"




definition tree_visited :: "unit Tree" where
  "tree_visited =
     \<lparr>nodes = (\<lambda>_. Node_init None None () 0 0)
        (0 := (Node_init None None () 0 0)\<lparr>node_n := 5, children := [1, 2]\<rparr>,
         1 := (Node_init (Some 0) (Some 0) () 1 (1/2))\<lparr>node_n := 3\<rparr>,
         2 := (Node_init (Some 0) (Some 1) () 1 (1/2))\<lparr>node_n := 1\<rparr>),
      fresh = 3\<rparr>"

section \<open>Properties of the selection rule\<close>

lemma max_loop_first_max:
  "\<exists>ys zs. best # xs = ys @ max_loop key best xs # zs
         \<and> (\<forall>y \<in> set ys. key y < key (max_loop key best xs))
         \<and> (\<forall>z \<in> set zs. key z \<le> key (max_loop key best xs))"
proof (induction xs arbitrary: best)
  case Nil
  have "[best] = [] @ max_loop key best [] # []
        \<and> (\<forall>y \<in> set []. key y < key (max_loop key best []))
        \<and> (\<forall>z \<in> set []. key z \<le> key (max_loop key best []))" by simp
  then show ?case by blast
next
  case (Cons x xs)
  show ?case
  proof (cases "key x > key best")
    case True
    then have eq: "max_loop key best (x # xs) = max_loop key x xs" by simp
    define r where "r = max_loop key x xs"
    from Cons.IH [of x] obtain ys zs where
      sp: "x # xs = ys @ r # zs"
      and lo: "\<forall>y \<in> set ys. key y < key r"
      and hi: "\<forall>z \<in> set zs. key z \<le> key r" unfolding r_def by blast
    have "x \<in> set (ys @ r # zs)" unfolding sp [symmetric] by simp
    then have "x \<in> set ys \<or> x = r \<or> x \<in> set zs" by auto
    moreover have "x \<notin> set zs \<or> ys \<noteq> [] \<or> x = r"
      using sp by (cases ys) auto
    moreover have "ys \<noteq> [] \<longrightarrow> x \<in> set ys"
      using sp by (cases ys) auto
    ultimately have "key x \<le> key r" using lo by fastforce
    with True have kb: "key best < key r" by simp
    have sp': "best # x # xs = (best # ys) @ r # zs" unfolding sp by simp
    have lo': "\<forall>y \<in> set (best # ys). key y < key r" using lo kb by simp
    from sp' lo' hi show ?thesis unfolding eq r_def [symmetric] by blast
  next
    case False
    then have eq: "max_loop key best (x # xs) = max_loop key best xs" by simp
    define r where "r = max_loop key best xs"
    from Cons.IH [of best] obtain ys zs where
      sp: "best # xs = ys @ r # zs"
      and lo: "\<forall>y \<in> set ys. key y < key r"
      and hi: "\<forall>z \<in> set zs. key z \<le> key r" unfolding r_def by blast
    show ?thesis
    proof (cases ys)
      case Nil
      from sp have "best # xs = r # zs" unfolding Nil append_Nil .
      then have r: "r = best" and z: "zs = xs" by simp_all
      have sp': "best # x # xs = [] @ r # (x # xs)" unfolding r by simp
      have lo': "\<forall>y \<in> set []. key y < key r" by simp
      have hi': "\<forall>z \<in> set (x # xs). key z \<le> key r" using hi False unfolding z r by simp
      from sp' lo' hi' show ?thesis unfolding eq r_def [symmetric] by blast
    next
      case (Cons y ys')
      from sp have "best # xs = y # (ys' @ r # zs)" unfolding Cons by simp
      then have y: "y = best" and xs: "xs = ys' @ r # zs" by simp_all
      from lo Cons y have "key best < key r" by simp
      with False have kx: "key x < key r" by simp
      have sp': "best # x # xs = (best # x # ys') @ r # zs" unfolding xs by simp
      have lo': "\<forall>y \<in> set (best # x # ys'). key y < key r"
        using lo kx unfolding Cons y by simp
      from sp' lo' hi show ?thesis unfolding eq r_def [symmetric] by blast
    qed
  qed
qed

lemma py_max_key_first_max:
  assumes "xs \<noteq> []"
  shows "\<exists>r ys zs. py_max_key key xs = Inr r \<and> xs = ys @ r # zs
           \<and> (\<forall>y \<in> set ys. key y < key r) \<and> (\<forall>z \<in> set zs. key z \<le> key r)"
proof -
  from assms obtain x rest where xs: "xs = x # rest" by (cases xs) auto
  from max_loop_first_max [of x rest key] xs show ?thesis
    by (auto simp: py_max_key_def)
qed

text \<open>
  Claim C1. For a node with a non-empty children list and any \<open>c_puct\<close>,
  \<open>get_best_child_to_explore\<close> returns a child \<open>r\<close> that splits the children list as
  \<open>ys @ r # zs\<close> such that, with the score
  \<open>-q + c_puct * p * sqrt(S) / (1 + n)\<close> taken on each child's own \<open>q\<close>, \<open>p\<close>, \<open>n\<close> and
  \<open>S\<close> the sum of the visit counts of all children of the node read at the call, every
  child before \<open>r\<close> scores strictly less and every child after \<open>r\<close> scores at most as much:
  \<open>r\<close> is the first child of maximal score. The result is a function of the store.
\<close>

theorem best_child_to_explore_argmax:
  assumes "children (nodes t self) \<noteq> []"
  shows "\<exists>r ys zs.
           get_best_child_to_explore t self c_puct = Inr r
         \<and> children (nodes t self) = ys @ r # zs
         \<and> (\<forall>y \<in> set ys.
               - node_q (nodes t y) + c_puct * node_p (nodes t y)
                   * sqrt (real (\<Sum>c\<leftarrow>children (nodes t self). node_n (nodes t c)))
                   / (1 + real (node_n (nodes t y)))
             < - node_q (nodes t r) + c_puct * node_p (nodes t r)
                   * sqrt (real (\<Sum>c\<leftarrow>children (nodes t self). node_n (nodes t c)))
                   / (1 + real (node_n (nodes t r))))
         \<and> (\<forall>z \<in> set zs.
               - node_q (nodes t z) + c_puct * node_p (nodes t z)
                   * sqrt (real (\<Sum>c\<leftarrow>children (nodes t self). node_n (nodes t c)))
                   / (1 + real (node_n (nodes t z)))
             \<le> - node_q (nodes t r) + c_puct * node_p (nodes t r)
                   * sqrt (real (\<Sum>c\<leftarrow>children (nodes t self). node_n (nodes t c)))
                   / (1 + real (node_n (nodes t r))))"
  using py_max_key_first_max [OF assms,
      of "\<lambda>x. get_exploring_score (nodes t x)
                 (sqrt (real (\<Sum>c\<leftarrow>children (nodes t self). node_n (nodes t c)))) c_puct"]
  unfolding get_best_child_to_explore_def Let_def get_exploring_score_def .

text \<open>
  On \<open>tree_two_visited\<close> the children have visit counts 3 and 1, so \<open>S = 4\<close>; the scores are
  \<open>-1/3 + 1/4\<close> and \<open>1/2\<close>, and the second child is returned.
\<close>

theorem best_child_to_explore_argmax_witness:
  "children (nodes tree_two_visited 0) \<noteq> []
   \<and> get_best_child_to_explore tree_two_visited 0 1 = Inr 2
   \<and> (\<exists>r ys zs. get_best_child_to_explore tree_two_visited 0 1 = Inr r
         \<and> children (nodes tree_two_visited 0) = ys @ r # zs
         \<and> (\<forall>y \<in> set ys.
               - node_q (nodes tree_two_visited y) + 1 * node_p (nodes tree_two_visited y)
                   * sqrt (real (\<Sum>c\<leftarrow>children (nodes tree_two_visited 0). node_n (nodes tree_two_visited c)))
                   / (1 + real (node_n (nodes tree_two_visited y)))
             < - node_q (nodes tree_two_visited r) + 1 * node_p (nodes tree_two_visited r)
                   * sqrt (real (\<Sum>c\<leftarrow>children (nodes tree_two_visited 0). node_n (nodes tree_two_visited c)))
                   / (1 + real (node_n (nodes tree_two_visited r))))
         \<and> (\<forall>z \<in> set zs.
               - node_q (nodes tree_two_visited z) + 1 * node_p (nodes tree_two_visited z)
                   * sqrt (real (\<Sum>c\<leftarrow>children (nodes tree_two_visited 0). node_n (nodes tree_two_visited c)))
                   / (1 + real (node_n (nodes tree_two_visited z)))
             \<le> - node_q (nodes tree_two_visited r) + 1 * node_p (nodes tree_two_visited r)
                   * sqrt (real (\<Sum>c\<leftarrow>children (nodes tree_two_visited 0). node_n (nodes tree_two_visited c)))
                   / (1 + real (node_n (nodes tree_two_visited r)))))"
proof -
  have h: "children (nodes tree_two_visited 0) \<noteq> []"
    by (simp add: tree_two_visited_def Node_init_def)
  have e: "get_best_child_to_explore tree_two_visited 0 1 = Inr 2"
    by (simp add: get_best_child_to_explore_def tree_two_visited_def Node_init_def py_max_key_def
        get_exploring_score_def)
  from h e best_child_to_explore_argmax [OF h, of 1] show ?thesis by blast
qed




section \<open>Properties of play and policy extraction\<close>

text \<open>
  Claim C4, as stated, at a concrete input: a node with two visited children and
  \<open>temperature = 0\<close>. The call raises \<open>ZeroDivisionError\<close>; no child is selected.
\<close>

theorem play_zero_temperature_counterexample:
  "children (nodes tree_play 0) = [1, 2]
   \<and> get_best_child_to_play choose_first tree_play 0 0 = Inl ZeroDivisionError"
  by (simp add: tree_play_def Node_init_def get_best_child_to_play_def n_pow_def py_div_def)

text \<open>
  Claim C4, amended. For every node with at least one child and every sampler,
  \<open>get_best_child_to_play\<close> with \<open>temperature = 0\<close> raises \<open>ZeroDivisionError\<close>: the
  exponent \<open>1 / temperature\<close> is evaluated for the first child before any special case
  could apply, and the code has none.
\<close>

theorem play_zero_temperature_raises:
  assumes "children (nodes t self) \<noteq> []"
  shows "get_best_child_to_play choices t self 0 = Inl ZeroDivisionError"
proof -
  from assms obtain c cs where ch: "children (nodes t self) = c # cs"
    by (cases "children (nodes t self)") auto
  have "n_pow (nodes t c) 0 = Inl ZeroDivisionError"
    by (simp add: n_pow_def py_div_def)
  then show ?thesis
    unfolding get_best_child_to_play_def ch by simp
qed

theorem play_zero_temperature_raises_witness:
  "children (nodes tree_play 0) \<noteq> []
   \<and> get_best_child_to_play choose_first tree_play 0 0 = Inl ZeroDivisionError"
proof -
  have h: "children (nodes tree_play 0) \<noteq> []"
    by (simp add: tree_play_def Node_init_def)
  from play_zero_temperature_raises [OF h] h show ?thesis by simp
qed

text \<open>
  Claim C10. For a node whose children list is empty, \<open>get_policy\<close> raises nothing and
  returns \<open>action_space\<close> zeros. The total weight is \<open>0\<close>, but the division by it sits in
  the comprehension over the children and is never evaluated. This holds for every
  temperature and every \<open>action_space\<close> (a negative one gives the empty list), in particular
  for the positive temperatures and non-negative sizes of the claim.
\<close>

theorem policy_of_leaf_is_zeros:
  assumes "children (nodes t self) = []"
  shows "get_policy t self temperature action_space = Inr (replicate (nat action_space) 0)"
proof -
  have "map (\<lambda>a::int. 0::real) (py_range action_space) = replicate (nat action_space) 0"
    by (simp add: py_range_def map_replicate_const)
  then show ?thesis
    unfolding get_policy_def assms by (simp add: dict_of_def)
qed

theorem policy_of_leaf_is_zeros_witness:
  "children (nodes tree_single_leaf 0) = []
   \<and> get_policy tree_single_leaf 0 1 3 = Inr [0, 0, 0]"
proof -
  have h: "children (nodes tree_single_leaf 0) = []"
    by (simp add: tree_single_leaf_def Node_init_def)
  have "replicate (nat 3) (0::real) = [0, 0, 0]"
    by (simp add: numeral_3_eq_3)
  with policy_of_leaf_is_zeros [OF h, of 1 3] h show ?thesis by simp
qed

section \<open>Properties of backup\<close>

lemma nodes_set_node [simp]:
  "nodes (set_node t x nd) y = (if y = x then nd else nodes t y)"
  by (simp add: set_node_def)

lemma fresh_set_node [simp]: "fresh (set_node t x nd) = fresh t"
  by (simp add: set_node_def)

lemma backup_step_fields [simp]:
  "node_n (backup_step tp v nd) = node_n nd + 1"
  "node_w (backup_step tp v nd) = node_w nd + (if to_play nd = tp then v else - v)"
  "node_q (backup_step tp v nd) =
     (node_w nd + (if to_play nd = tp then v else - v)) / (real (node_n nd) + 1)"
  "node_p (backup_step tp v nd) = node_p nd"
  "parent (backup_step tp v nd) = parent nd"
  "node_a (backup_step tp v nd) = node_a nd"
  "node_s (backup_step tp v nd) = node_s nd"
  "to_play (backup_step tp v nd) = to_play nd"
  "children (backup_step tp v nd) = children nd"
  by (simp_all add: backup_step_def Let_def)

lemma ancestors_are_cong:
  "(\<And>y. parent (nodes t' y) = parent (nodes t y)) \<Longrightarrow>
   ancestors_are t' p xs = ancestors_are t p xs"
proof (induction xs arbitrary: p)
  case Nil
  then show ?case by (cases p) simp_all
next
  case (Cons x xs)
  then show ?case by (cases p) simp_all
qed

lemma ancestors_are_unique:
  "ancestors_are t p xs \<Longrightarrow> ancestors_are t p ys \<Longrightarrow> xs = ys"
proof (induction xs arbitrary: p ys)
  case Nil
  then show ?case by (cases p) simp_all
next
  case (Cons x xs)
  then obtain y where p: "p = Some y" by (cases p) auto
  with Cons.prems obtain ys' where ys: "ys = x # ys'" by (cases ys) auto
  with Cons p show ?case by auto
qed

lemma ancestors_are_suffix:
  "ancestors_are t p (xs @ y # ys) \<Longrightarrow> ancestors_are t (Some y) (y # ys)"
proof (induction xs arbitrary: p)
  case Nil
  then show ?case by (cases p) simp_all
next
  case (Cons x xs)
  then show ?case by (cases p) simp_all
qed

lemma ancestors_are_distinct:
  assumes "ancestors_are t p xs"
  shows "distinct xs"
  using assms
proof (induction xs arbitrary: p)
  case Nil
  show ?case by simp
next
  case (Cons x xs)
  then have p: "p = Some x" and rest: "ancestors_are t (parent (nodes t x)) xs"
    by (cases p; simp)+
  have "x \<notin> set xs"
  proof
    assume "x \<in> set xs"
    then obtain us vs where sp: "xs = us @ x # vs" by (auto simp: in_set_conv_decomp)
    from rest have "ancestors_are t (Some x) (x # vs)"
      unfolding sp by (rule ancestors_are_suffix)
    moreover from Cons.prems p have "ancestors_are t (Some x) (x # xs)" by simp
    ultimately have "x # vs = x # xs" by (rule ancestors_are_unique)
    with sp show False by simp
  qed
  moreover from Cons.IH [OF rest] have "distinct xs" .
  ultimately show ?case by simp
qed

lemma backup_loop_chain:
  "ancestors_are t p xs \<Longrightarrow>
   backup_loop tp v t p =
     Some (t\<lparr>nodes := (\<lambda>x. if x \<in> set xs then backup_step tp v (nodes t x) else nodes t x)\<rparr>)"
proof (induction xs arbitrary: t p)
  case Nil
  then have "p = None" by (cases p) simp_all
  then show ?case by (simp add: backup_loop.simps)
next
  case (Cons x xs)
  then have p: "p = Some x" and rest: "ancestors_are t (parent (nodes t x)) xs"
    by (cases p; simp)+
  from ancestors_are_distinct [OF Cons.prems] have nx: "x \<notin> set xs" by simp
  define t1 where "t1 = set_node t x (backup_step tp v (nodes t x))"
  have par: "\<And>y. parent (nodes t1 y) = parent (nodes t y)"
    unfolding t1_def by simp
  from rest have rest1: "ancestors_are t1 (parent (nodes t x)) xs"
    by (simp add: ancestors_are_cong [OF par])
  have "backup_loop tp v t p = backup_loop tp v t1 (parent (nodes t x))"
    unfolding p t1_def by (subst backup_loop.simps) simp
  also have "\<dots> = Some (t1\<lparr>nodes := (\<lambda>y. if y \<in> set xs then backup_step tp v (nodes t1 y)
                                           else nodes t1 y)\<rparr>)"
    by (rule Cons.IH [OF rest1])
  also have "t1\<lparr>nodes := (\<lambda>y. if y \<in> set xs then backup_step tp v (nodes t1 y) else nodes t1 y)\<rparr>
           = t\<lparr>nodes := (\<lambda>y. if y \<in> set (x # xs) then backup_step tp v (nodes t y)
                               else nodes t y)\<rparr>"
    using nx unfolding t1_def set_node_def by (auto simp: fun_eq_iff)
  finally show ?case .
qed

lemma backup_chain:
  assumes "ancestors_are t (parent (nodes t leaf)) anc"
  shows "backup t leaf =
     Some (t\<lparr>nodes := (\<lambda>x. if x \<in> set anc
                              then backup_step (to_play (nodes t leaf)) (node_w (nodes t leaf))
                                     (if x = leaf
                                      then (nodes t leaf)\<lparr>node_n := node_n (nodes t leaf) + 1,
                                             node_q := node_w (nodes t leaf)
                                                        / (real (node_n (nodes t leaf)) + 1)\<rparr>
                                      else nodes t x)
                              else if x = leaf
                              then (nodes t leaf)\<lparr>node_n := node_n (nodes t leaf) + 1,
                                     node_q := node_w (nodes t leaf)
                                                / (real (node_n (nodes t leaf)) + 1)\<rparr>
                              else nodes t x)\<rparr>)"
proof -
  define nd where "nd = (nodes t leaf)\<lparr>node_n := node_n (nodes t leaf) + 1,
      node_q := node_w (nodes t leaf) / (real (node_n (nodes t leaf)) + 1)\<rparr>"
  define t1 where "t1 = set_node t leaf nd"
  have par: "\<And>y. parent (nodes t1 y) = parent (nodes t y)"
    unfolding t1_def nd_def by simp
  from assms have a1: "ancestors_are t1 (parent (nodes t leaf)) anc"
    by (simp add: ancestors_are_cong [OF par])
  have "backup t leaf = backup_loop (to_play (nodes t leaf)) (node_w (nodes t leaf)) t1
                          (parent (nodes t leaf))"
    unfolding backup_def t1_def nd_def Let_def by (simp add: add.commute)
  also note backup_loop_chain [OF a1]
  finally show ?thesis
    unfolding t1_def nd_def set_node_def by (simp add: fun_eq_iff cong: if_cong)
qed

lemma ancestors_are_not_self:
  assumes "ancestors_are t (parent (nodes t leaf)) anc"
  shows "leaf \<notin> set anc"
proof -
  from assms have "ancestors_are t (Some leaf) (leaf # anc)" by simp
  then have "distinct (leaf # anc)" by (rule ancestors_are_distinct)
  then show ?thesis by simp
qed

lemma backup_step_eq:
  "backup_step tp v nd =
     nd\<lparr>node_n := node_n nd + 1,
        node_w := node_w nd + (if to_play nd = tp then v else - v),
        node_q := (node_w nd + (if to_play nd = tp then v else - v)) / real (node_n nd + 1)\<rparr>"
  by (simp add: backup_step_def Let_def)

lemma backup_effect:
  assumes "ancestors_are t (parent (nodes t leaf)) anc"
  shows "\<exists>t'. backup t leaf = Some t' \<and> fresh t' = fresh t
      \<and> nodes t' leaf = (nodes t leaf)\<lparr>node_n := node_n (nodes t leaf) + 1,
            node_q := node_w (nodes t leaf) / real (node_n (nodes t leaf) + 1)\<rparr>
      \<and> (\<forall>x \<in> set anc. nodes t' x = (nodes t x)\<lparr>node_n := node_n (nodes t x) + 1,
            node_w := node_w (nodes t x)
               + (if to_play (nodes t x) = to_play (nodes t leaf)
                  then node_w (nodes t leaf) else - node_w (nodes t leaf)),
            node_q := (node_w (nodes t x)
               + (if to_play (nodes t x) = to_play (nodes t leaf)
                  then node_w (nodes t leaf) else - node_w (nodes t leaf)))
               / real (node_n (nodes t x) + 1)\<rparr>)
      \<and> (\<forall>x. x \<noteq> leaf \<and> x \<notin> set anc \<longrightarrow> nodes t' x = nodes t x)"
proof -
  note ns = ancestors_are_not_self [OF assms]
  show ?thesis
    unfolding backup_chain [OF assms] using ns
    by (auto simp: backup_step_eq add.commute)
qed

text \<open>
  Claim C2. Let the parent references from the leaf lead through the ancestors \<open>anc\<close> to the
  root. Then \<open>backup\<close> returns, and in the resulting store the leaf has \<open>n + 1\<close> visits and
  \<open>q = w / (n + 1)\<close> with its \<open>w\<close> untouched; every ancestor has \<open>n + 1\<close> visits, its \<open>w\<close>
  increased by the leaf's \<open>w\<close> if its \<open>to_play\<close> equals the leaf's and decreased by it
  otherwise, and \<open>q\<close> recomputed as the new \<open>w\<close> over the new \<open>n\<close>; every other node is
  unchanged. In particular, on the chain root, child, leaf with \<open>to_play\<close> 0, 1, 0, all
  statistics zero and the leaf's \<open>w\<close> set to 1, one backup gives \<open>q\<close> = 1 at the leaf, -1 at
  the child and 1 at the root.
\<close>

theorem backup_updates_leaf_and_ancestors:
  "(\<forall>(t :: 's Tree) leaf anc.
       ancestors_are t (parent (nodes t leaf)) anc \<longrightarrow>
       (\<exists>t'. backup t leaf = Some t' \<and> fresh t' = fresh t
          \<and> nodes t' leaf = (nodes t leaf)\<lparr>node_n := node_n (nodes t leaf) + 1,
                node_q := node_w (nodes t leaf) / real (node_n (nodes t leaf) + 1)\<rparr>
          \<and> (\<forall>x \<in> set anc. nodes t' x = (nodes t x)\<lparr>node_n := node_n (nodes t x) + 1,
                node_w := node_w (nodes t x)
                   + (if to_play (nodes t x) = to_play (nodes t leaf)
                      then node_w (nodes t leaf) else - node_w (nodes t leaf)),
                node_q := (node_w (nodes t x)
                   + (if to_play (nodes t x) = to_play (nodes t leaf)
                      then node_w (nodes t leaf) else - node_w (nodes t leaf)))
                   / real (node_n (nodes t x) + 1)\<rparr>)
          \<and> (\<forall>x. x \<noteq> leaf \<and> x \<notin> set anc \<longrightarrow> nodes t' x = nodes t x)))
   \<and> (\<exists>t'. backup chain3 2 = Some t'
          \<and> node_q (nodes t' 2) = 1 \<and> node_q (nodes t' 1) = - 1 \<and> node_q (nodes t' 0) = 1)"
proof (intro conjI allI impI)
  fix t :: "'s Tree" and leaf anc
  assume "ancestors_are t (parent (nodes t leaf)) anc"
  then show "\<exists>t'. backup t leaf = Some t' \<and> fresh t' = fresh t
          \<and> nodes t' leaf = (nodes t leaf)\<lparr>node_n := node_n (nodes t leaf) + 1,
                node_q := node_w (nodes t leaf) / real (node_n (nodes t leaf) + 1)\<rparr>
          \<and> (\<forall>x \<in> set anc. nodes t' x = (nodes t x)\<lparr>node_n := node_n (nodes t x) + 1,
                node_w := node_w (nodes t x)
                   + (if to_play (nodes t x) = to_play (nodes t leaf)
                      then node_w (nodes t leaf) else - node_w (nodes t leaf)),
                node_q := (node_w (nodes t x)
                   + (if to_play (nodes t x) = to_play (nodes t leaf)
                      then node_w (nodes t leaf) else - node_w (nodes t leaf)))
                   / real (node_n (nodes t x) + 1)\<rparr>)
          \<and> (\<forall>x. x \<noteq> leaf \<and> x \<notin> set anc \<longrightarrow> nodes t' x = nodes t x)"
    by (rule backup_effect)
next
  have a: "ancestors_are chain3 (parent (nodes chain3 2)) [1, 0]"
    by (simp add: chain3_def Node_init_def)
  show "\<exists>t'. backup chain3 2 = Some t'
          \<and> node_q (nodes t' 2) = 1 \<and> node_q (nodes t' 1) = - 1 \<and> node_q (nodes t' 0) = 1"
    unfolding backup_chain [OF a]
    by (simp add: chain3_def Node_init_def)
qed

theorem backup_updates_leaf_and_ancestors_witness:
  "ancestors_are chain3 (parent (nodes chain3 2)) [1, 0]
   \<and> (\<exists>t'. backup chain3 2 = Some t' \<and> fresh t' = 3
        \<and> node_n (nodes t' 2) = 1 \<and> node_w (nodes t' 2) = 1 \<and> node_q (nodes t' 2) = 1
        \<and> node_n (nodes t' 1) = 1 \<and> node_w (nodes t' 1) = - 1 \<and> node_q (nodes t' 1) = - 1
        \<and> node_n (nodes t' 0) = 1 \<and> node_w (nodes t' 0) = 1 \<and> node_q (nodes t' 0) = 1
        \<and> nodes t' 7 = nodes chain3 7)"
proof -
  have a: "ancestors_are chain3 (parent (nodes chain3 2)) [1, 0]"
    by (simp add: chain3_def Node_init_def)
  from backup_updates_leaf_and_ancestors [THEN conjunct1, rule_format, OF a]
  obtain t' where r: "backup chain3 2 = Some t'" "fresh t' = fresh chain3"
    "nodes t' 2 = (nodes chain3 2)\<lparr>node_n := node_n (nodes chain3 2) + 1,
          node_q := node_w (nodes chain3 2) / real (node_n (nodes chain3 2) + 1)\<rparr>"
    "\<forall>x \<in> set [1, 0]. nodes t' x = (nodes chain3 x)\<lparr>node_n := node_n (nodes chain3 x) + 1,
          node_w := node_w (nodes chain3 x)
             + (if to_play (nodes chain3 x) = to_play (nodes chain3 2)
                then node_w (nodes chain3 2) else - node_w (nodes chain3 2)),
          node_q := (node_w (nodes chain3 x)
             + (if to_play (nodes chain3 x) = to_play (nodes chain3 2)
                then node_w (nodes chain3 2) else - node_w (nodes chain3 2)))
             / real (node_n (nodes chain3 x) + 1)\<rparr>"
    "\<forall>x. x \<noteq> 2 \<and> x \<notin> set [1, 0] \<longrightarrow> nodes t' x = nodes chain3 x"
    by blast
  from r(4) have r1: "nodes t' 1 = (nodes chain3 1)\<lparr>node_n := node_n (nodes chain3 1) + 1,
          node_w := node_w (nodes chain3 1)
             + (if to_play (nodes chain3 1) = to_play (nodes chain3 2)
                then node_w (nodes chain3 2) else - node_w (nodes chain3 2)),
          node_q := (node_w (nodes chain3 1)
             + (if to_play (nodes chain3 1) = to_play (nodes chain3 2)
                then node_w (nodes chain3 2) else - node_w (nodes chain3 2)))
             / real (node_n (nodes chain3 1) + 1)\<rparr>" by simp
  from r(4) have r0: "nodes t' 0 = (nodes chain3 0)\<lparr>node_n := node_n (nodes chain3 0) + 1,
          node_w := node_w (nodes chain3 0)
             + (if to_play (nodes chain3 0) = to_play (nodes chain3 2)
                then node_w (nodes chain3 2) else - node_w (nodes chain3 2)),
          node_q := (node_w (nodes chain3 0)
             + (if to_play (nodes chain3 0) = to_play (nodes chain3 2)
                then node_w (nodes chain3 2) else - node_w (nodes chain3 2)))
             / real (node_n (nodes chain3 0) + 1)\<rparr>" by simp
  from r(5) have r7: "nodes t' 7 = nodes chain3 7" by simp
  have "fresh t' = 3" using r(2) by (simp add: chain3_def)
  moreover have "node_n (nodes t' 2) = 1 \<and> node_w (nodes t' 2) = 1 \<and> node_q (nodes t' 2) = 1"
    unfolding r(3) by (simp add: chain3_def Node_init_def)
  moreover have "node_n (nodes t' 1) = 1 \<and> node_w (nodes t' 1) = - 1 \<and> node_q (nodes t' 1) = - 1"
    unfolding r1 by (simp add: chain3_def Node_init_def)
  moreover have "node_n (nodes t' 0) = 1 \<and> node_w (nodes t' 0) = 1 \<and> node_q (nodes t' 0) = 1"
    unfolding r0 by (simp add: chain3_def Node_init_def)
  ultimately show ?thesis using a r(1) r7 by blast
qed

section \<open>Properties of select\<close>

lemma best_child_is_child:
  assumes "get_best_child_to_explore t x c_puct = Inr c"
  shows "c \<in> set (children (nodes t x))"
proof (cases "children (nodes t x) = []")
  case True
  with assms show ?thesis
    by (simp add: get_best_child_to_explore_def py_max_key_def)
next
  case False
  from py_max_key_first_max [OF False] assms show ?thesis
    unfolding get_best_child_to_explore_def Let_def by (metis Inr_inject in_set_conv_decomp)
qed

lemma best_child_exists:
  assumes "\<not> is_leaf (nodes t x)"
  shows "\<exists>c. get_best_child_to_explore t x c_puct = Inr c"
proof -
  from assms have "children (nodes t x) \<noteq> []" by (simp add: is_leaf_def)
  from py_max_key_first_max [OF this] show ?thesis
    unfolding get_best_child_to_explore_def Let_def by blast
qed

lemma select_descends:
  assumes "wf {(c, x). c \<in> set (children (nodes t x))}"
  shows "\<exists>leaf path. select t node = Some (Inr leaf) \<and> is_leaf (nodes t leaf)
           \<and> descent t node path leaf"
  using assms
proof (induction node rule: wf_induct_rule)
  case (less x)
  show ?case
  proof (cases "is_leaf (nodes t x)")
    case True
    then have "select t x = Some (Inr x)" by (subst select.simps) simp
    moreover have "descent t x [] x" by simp
    ultimately show ?thesis using True by blast
  next
    case False
    from best_child_exists [OF False] obtain c where
      c: "get_best_child_to_explore t x 1 = Inr c" by blast
    from best_child_is_child [OF c] have "(c, x) \<in> {(c, x). c \<in> set (children (nodes t x))}"
      by simp
    from less.IH [OF this] obtain leaf path where
      r: "select t c = Some (Inr leaf)" "is_leaf (nodes t leaf)" "descent t c path leaf"
      by blast
    from False c have "select t x = select t c" by (subst select.simps) simp
    moreover from False c r(3) have "descent t x (c # path) leaf" by simp
    ultimately show ?thesis using r by metis
  qed
qed

text \<open>
  Claim C9. In a store whose child relation is well-founded (a finite acyclic tree has no
  infinite chain of children), \<open>select\<close> returns from every node, without raising; the
  node returned has an empty children list and is reached from the start node by
  repeatedly taking the \<open>get_best_child_to_explore\<close> result. \<open>select\<close> is a function of the
  store and the start node, so the descent is determined by the current statistics.
\<close>

theorem select_terminates_at_leaf:
  assumes "wf {(c, x). c \<in> set (children (nodes t x))}"
  shows "\<exists>leaf path. select t node = Some (Inr leaf) \<and> children (nodes t leaf) = []
           \<and> descent t node path leaf"
  using select_descends [OF assms, of node] by (simp add: is_leaf_def)

theorem select_terminates_at_leaf_witness:
  "wf {(c, x). c \<in> set (children (nodes tree_depth2 x))}
   \<and> (\<exists>leaf path. select tree_depth2 0 = Some (Inr leaf) \<and> children (nodes tree_depth2 leaf) = []
         \<and> descent tree_depth2 0 path leaf)
   \<and> descent tree_depth2 0 [2] 2
   \<and> select tree_depth2 0 = Some (Inr 2)"
proof -
  have "{(c, x). c \<in> set (children (nodes tree_depth2 x))} \<subseteq> measure (\<lambda>x. 4 - x)"
    by (auto simp: tree_depth2_def Node_init_def split: if_splits)
  then have h: "wf {(c, x). c \<in> set (children (nodes tree_depth2 x))}"
    by (rule wf_subset [OF wf_measure])
  have d: "descent tree_depth2 0 [2] 2"
    by (simp add: tree_depth2_def Node_init_def is_leaf_def get_best_child_to_explore_def
        py_max_key_def get_exploring_score_def)
  have b: "get_best_child_to_explore tree_depth2 0 1 = Inr 2" "\<not> is_leaf (nodes tree_depth2 0)"
    "is_leaf (nodes tree_depth2 2)"
    by (simp_all add: tree_depth2_def Node_init_def is_leaf_def get_best_child_to_explore_def
        py_max_key_def get_exploring_score_def)
  have "select tree_depth2 0 = select tree_depth2 2"
    using b by (subst select.simps) simp
  also have "\<dots> = Some (Inr 2)"
    using b by (subst select.simps) simp
  finally have s: "select tree_depth2 0 = Some (Inr 2)" .
  from select_terminates_at_leaf [OF h, of 0] h d s show ?thesis by blast
qed

section \<open>Properties of expansion\<close>

lemma nodes_add_child:
  "nodes (add_child t leaf child) x =
     (if x = leaf
      then (if leaf = fresh t then child else nodes t leaf)
             \<lparr>children := children (if leaf = fresh t then child else nodes t leaf) @ [fresh t]\<rparr>
      else if x = fresh t then child else nodes t x)"
  by (simp add: add_child_def Let_def)

lemma fresh_add_child [simp]: "fresh (add_child t leaf child) = Suc (fresh t)"
  by (simp add: add_child_def Let_def)

lemma expand_loop_effect:
  assumes "leaf < fresh t"
  shows "expand_loop env leaf aps t =
    t\<lparr>nodes := (\<lambda>x.
          if x = leaf
          then (nodes t leaf)\<lparr>children := children (nodes t leaf)
                  @ [fresh t ..< fresh t
                       + length (filter (\<lambda>(a, p). is_legal env a (node_s (nodes t leaf))) aps)]\<rparr>
          else if fresh t \<le> x
                \<and> x < fresh t
                       + length (filter (\<lambda>(a, p). is_legal env a (node_s (nodes t leaf))) aps)
          then (case filter (\<lambda>(a, p). is_legal env a (node_s (nodes t leaf))) aps ! (x - fresh t) of
                  (a, p) \<Rightarrow> Node_init (Some leaf) (Some a)
                              (turn env (transition env (node_s (nodes t leaf)) a))
                              ((to_play (nodes t leaf) + 1) mod 2) p)
          else nodes t x),
       fresh := fresh t
          + length (filter (\<lambda>(a, p). is_legal env a (node_s (nodes t leaf))) aps)\<rparr>"
  using assms
proof (induction aps arbitrary: t)
  case Nil
  show ?case by (simp add: fun_eq_iff)
next
  case (Cons ap aps)
  obtain a p where ap: "ap = (a, p)" by (cases ap)
  show ?case
  proof (cases "is_legal env a (node_s (nodes t leaf))")
    case False
    have step: "expand_loop env leaf (ap # aps) t = expand_loop env leaf aps t"
      unfolding ap using False by simp
    have fl: "filter (\<lambda>(a, p). is_legal env a (node_s (nodes t leaf))) (ap # aps)
                = filter (\<lambda>(a, p). is_legal env a (node_s (nodes t leaf))) aps"
      unfolding ap using False by simp
    show ?thesis unfolding step fl by (rule Cons.IH [OF Cons.prems])
  next
    case True
    define child where "child = Node_init (Some leaf) (Some a)
        (turn env (transition env (node_s (nodes t leaf)) a))
        ((to_play (nodes t leaf) + 1) mod 2) p"
    define t1 where "t1 = add_child t leaf child"
    from Cons.prems have ne: "leaf \<noteq> fresh t" by simp
    have l1: "leaf < fresh t1" unfolding t1_def using Cons.prems by simp
    have n1: "nodes t1 = (\<lambda>x. if x = leaf then (nodes t leaf)\<lparr>children :=
                 children (nodes t leaf) @ [fresh t]\<rparr>
               else if x = fresh t then child else nodes t x)"
      unfolding t1_def using ne by (simp add: fun_eq_iff nodes_add_child)
    have f1: "fresh t1 = Suc (fresh t)" unfolding t1_def by simp
    have s1: "node_s (nodes t1 leaf) = node_s (nodes t leaf)"
      and tp1: "to_play (nodes t1 leaf) = to_play (nodes t leaf)"
      and c1: "children (nodes t1 leaf) = children (nodes t leaf) @ [fresh t]"
      unfolding n1 by simp_all
    define legal where "legal = filter (\<lambda>(a, p). is_legal env a (node_s (nodes t leaf))) aps"
    have step: "expand_loop env leaf (ap # aps) t = expand_loop env leaf aps t1"
      unfolding ap t1_def child_def using True by (simp add: Let_def)
    have fl: "filter (\<lambda>(a, p). is_legal env a (node_s (nodes t leaf))) (ap # aps) = (a, p) # legal"
      unfolding ap legal_def using True by simp
    have upt: "[fresh t] @ [Suc (fresh t) ..< Suc (fresh t) + length legal]
                 = [fresh t ..< fresh t + Suc (length legal)]"
    proof -
      have "[fresh t ..< fresh t + Suc (length legal)]
              = fresh t # [Suc (fresh t) ..< fresh t + Suc (length legal)]"
        by (rule upt_conv_Cons) simp
      then show ?thesis by simp
    qed
    have "expand_loop env leaf aps t1 =
      t1\<lparr>nodes := (\<lambda>x.
          if x = leaf
          then (nodes t1 leaf)\<lparr>children := children (nodes t1 leaf)
                  @ [fresh t1 ..< fresh t1 + length legal]\<rparr>
          else if fresh t1 \<le> x \<and> x < fresh t1 + length legal
          then (case legal ! (x - fresh t1) of
                  (a, p) \<Rightarrow> Node_init (Some leaf) (Some a)
                              (turn env (transition env (node_s (nodes t leaf)) a))
                              ((to_play (nodes t leaf) + 1) mod 2) p)
          else nodes t1 x),
       fresh := fresh t1 + length legal\<rparr>"
      using Cons.IH [OF l1] unfolding s1 tp1 legal_def .
    also have "\<dots> =
      t\<lparr>nodes := (\<lambda>x.
          if x = leaf
          then (nodes t leaf)\<lparr>children := children (nodes t leaf)
                  @ [fresh t ..< fresh t + length ((a, p) # legal)]\<rparr>
          else if fresh t \<le> x \<and> x < fresh t + length ((a, p) # legal)
          then (case ((a, p) # legal) ! (x - fresh t) of
                  (a, p) \<Rightarrow> Node_init (Some leaf) (Some a)
                              (turn env (transition env (node_s (nodes t leaf)) a))
                              ((to_play (nodes t leaf) + 1) mod 2) p)
          else nodes t x),
       fresh := fresh t + length ((a, p) # legal)\<rparr>"
    proof -
      have nodes_eq: "(\<lambda>x.
          if x = leaf
          then (nodes t1 leaf)\<lparr>children := children (nodes t1 leaf)
                  @ [fresh t1 ..< fresh t1 + length legal]\<rparr>
          else if fresh t1 \<le> x \<and> x < fresh t1 + length legal
          then (case legal ! (x - fresh t1) of
                  (a, p) \<Rightarrow> Node_init (Some leaf) (Some a)
                              (turn env (transition env (node_s (nodes t leaf)) a))
                              ((to_play (nodes t leaf) + 1) mod 2) p)
          else nodes t1 x) = (\<lambda>x.
          if x = leaf
          then (nodes t leaf)\<lparr>children := children (nodes t leaf)
                  @ [fresh t ..< fresh t + length ((a, p) # legal)]\<rparr>
          else if fresh t \<le> x \<and> x < fresh t + length ((a, p) # legal)
          then (case ((a, p) # legal) ! (x - fresh t) of
                  (a, p) \<Rightarrow> Node_init (Some leaf) (Some a)
                              (turn env (transition env (node_s (nodes t leaf)) a))
                              ((to_play (nodes t leaf) + 1) mod 2) p)
          else nodes t x)"
      proof (rule ext)
        fix x
        consider "x = leaf" | "x \<noteq> leaf" "x = fresh t" | "x \<noteq> leaf" "Suc (fresh t) \<le> x"
          | "x \<noteq> leaf" "x < fresh t" by linarith
        then show "(if x = leaf
          then (nodes t1 leaf)\<lparr>children := children (nodes t1 leaf)
                  @ [fresh t1 ..< fresh t1 + length legal]\<rparr>
          else if fresh t1 \<le> x \<and> x < fresh t1 + length legal
          then (case legal ! (x - fresh t1) of
                  (a, p) \<Rightarrow> Node_init (Some leaf) (Some a)
                              (turn env (transition env (node_s (nodes t leaf)) a))
                              ((to_play (nodes t leaf) + 1) mod 2) p)
          else nodes t1 x) = (
          if x = leaf
          then (nodes t leaf)\<lparr>children := children (nodes t leaf)
                  @ [fresh t ..< fresh t + length ((a, p) # legal)]\<rparr>
          else if fresh t \<le> x \<and> x < fresh t + length ((a, p) # legal)
          then (case ((a, p) # legal) ! (x - fresh t) of
                  (a, p) \<Rightarrow> Node_init (Some leaf) (Some a)
                              (turn env (transition env (node_s (nodes t leaf)) a))
                              ((to_play (nodes t leaf) + 1) mod 2) p)
          else nodes t x)"
        proof cases
          case 1
          then show ?thesis unfolding n1 f1 using upt by simp
        next
          case 2
          then show ?thesis unfolding n1 f1 by (simp add: child_def)
        next
          case 3
          then have "x - fresh t = Suc (x - Suc (fresh t))" by simp
          with 3 show ?thesis unfolding n1 f1 by auto
        next
          case 4
          then show ?thesis unfolding n1 f1 by simp
        qed
      qed
      show ?thesis unfolding nodes_eq unfolding t1_def add_child_def Let_def set_node_def by simp
    qed
    finally show ?thesis unfolding step fl .
  qed
qed

lemma enumerate_py_map:
  "enumerate_py ps = map (\<lambda>a. (a, ps ! nat a)) (map int [0..<length ps])"
  unfolding enumerate_py_def by (rule nth_equalityI) simp_all

lemma filter_enumerate_py:
  "filter (\<lambda>(a, p). P a) (enumerate_py ps)
     = map (\<lambda>a. (a, ps ! nat a)) (filter P (map int [0..<length ps]))"
  unfolding enumerate_py_map by (simp add: filter_map comp_def)


lemma expand_terminal:
  assumes "is_terminal env (node_s (nodes t leaf))"
  shows "expand_and_evaluate t leaf m env =
           t\<lparr>nodes := (nodes t)(leaf := (nodes t leaf)\<lparr>node_w :=
                node_w (nodes t leaf) + compute_reward env (node_s (nodes t leaf))\<rparr>)\<rparr>"
  using assms by (simp add: expand_and_evaluate_def set_node_def)

lemma expand_nonterminal:
  assumes nt: "\<not> is_terminal env (node_s (nodes t leaf))"
    and alloc: "leaf < fresh t"
    and m: "m (board env (node_s (nodes t leaf))) = (ps, v)"
  shows "expand_and_evaluate t leaf m env =
    t\<lparr>nodes := (\<lambda>x.
          if x = leaf
          then (nodes t leaf)\<lparr>node_w := v, children := children (nodes t leaf)
                  @ [fresh t ..< fresh t
                       + length (filter (\<lambda>a. is_legal env a (node_s (nodes t leaf)))
                                   (map int [0..<length ps]))]\<rparr>
          else if fresh t \<le> x
                \<and> x < fresh t
                       + length (filter (\<lambda>a. is_legal env a (node_s (nodes t leaf)))
                                   (map int [0..<length ps]))
          then Node_init (Some leaf)
                 (Some (filter (\<lambda>a. is_legal env a (node_s (nodes t leaf)))
                          (map int [0..<length ps]) ! (x - fresh t)))
                 (turn env (transition env (node_s (nodes t leaf))
                    (filter (\<lambda>a. is_legal env a (node_s (nodes t leaf)))
                          (map int [0..<length ps]) ! (x - fresh t))))
                 ((to_play (nodes t leaf) + 1) mod 2)
                 (ps ! nat (filter (\<lambda>a. is_legal env a (node_s (nodes t leaf)))
                          (map int [0..<length ps]) ! (x - fresh t)))
          else nodes t x),
       fresh := fresh t
          + length (filter (\<lambda>a. is_legal env a (node_s (nodes t leaf)))
                      (map int [0..<length ps]))\<rparr>"
proof -
  define t0 where "t0 = set_node t leaf ((nodes t leaf)\<lparr>node_w := v\<rparr>)"
  define acts where "acts = filter (\<lambda>a. is_legal env a (node_s (nodes t leaf)))
                               (map int [0..<length ps])"
  have a0: "leaf < fresh t0" unfolding t0_def using alloc by simp
  have s0: "node_s (nodes t0 leaf) = node_s (nodes t leaf)"
    and tp0: "to_play (nodes t0 leaf) = to_play (nodes t leaf)"
    and c0: "children (nodes t0 leaf) = children (nodes t leaf)"
    and f0: "fresh t0 = fresh t"
    unfolding t0_def by simp_all
  have fl: "filter (\<lambda>(a, p). is_legal env a (node_s (nodes t leaf))) (enumerate_py ps)
              = map (\<lambda>a. (a, ps ! nat a)) acts"
    unfolding acts_def by (rule filter_enumerate_py)
  have "expand_and_evaluate t leaf m env = expand_loop env leaf (enumerate_py ps) t0"
    unfolding expand_and_evaluate_def t0_def using nt m by simp
  also note expand_loop_effect [OF a0, of env "enumerate_py ps"]
  finally have "expand_and_evaluate t leaf m env =
    t0\<lparr>nodes := (\<lambda>x.
          if x = leaf
          then (nodes t0 leaf)\<lparr>children := children (nodes t leaf)
                  @ [fresh t ..< fresh t + length acts]\<rparr>
          else if fresh t \<le> x \<and> x < fresh t + length acts
          then (case map (\<lambda>a. (a, ps ! nat a)) acts ! (x - fresh t) of
                  (a, p) \<Rightarrow> Node_init (Some leaf) (Some a)
                              (turn env (transition env (node_s (nodes t leaf)) a))
                              ((to_play (nodes t leaf) + 1) mod 2) p)
          else nodes t0 x),
       fresh := fresh t + length acts\<rparr>"
    unfolding s0 tp0 c0 f0 fl length_map .
  also have "\<dots> =
    t\<lparr>nodes := (\<lambda>x.
          if x = leaf
          then (nodes t leaf)\<lparr>node_w := v, children := children (nodes t leaf)
                  @ [fresh t ..< fresh t + length acts]\<rparr>
          else if fresh t \<le> x \<and> x < fresh t + length acts
          then Node_init (Some leaf) (Some (acts ! (x - fresh t)))
                 (turn env (transition env (node_s (nodes t leaf)) (acts ! (x - fresh t))))
                 ((to_play (nodes t leaf) + 1) mod 2)
                 (ps ! nat (acts ! (x - fresh t)))
          else nodes t x),
       fresh := fresh t + length acts\<rparr>"
  proof -
    have nodes_eq: "(\<lambda>x.
          if x = leaf
          then (nodes t0 leaf)\<lparr>children := children (nodes t leaf)
                  @ [fresh t ..< fresh t + length acts]\<rparr>
          else if fresh t \<le> x \<and> x < fresh t + length acts
          then (case map (\<lambda>a. (a, ps ! nat a)) acts ! (x - fresh t) of
                  (a, p) \<Rightarrow> Node_init (Some leaf) (Some a)
                              (turn env (transition env (node_s (nodes t leaf)) a))
                              ((to_play (nodes t leaf) + 1) mod 2) p)
          else nodes t0 x) = (\<lambda>x.
          if x = leaf
          then (nodes t leaf)\<lparr>node_w := v, children := children (nodes t leaf)
                  @ [fresh t ..< fresh t + length acts]\<rparr>
          else if fresh t \<le> x \<and> x < fresh t + length acts
          then Node_init (Some leaf) (Some (acts ! (x - fresh t)))
                 (turn env (transition env (node_s (nodes t leaf)) (acts ! (x - fresh t))))
                 ((to_play (nodes t leaf) + 1) mod 2)
                 (ps ! nat (acts ! (x - fresh t)))
          else nodes t x)"
    proof (rule ext)
      fix x
      have "fresh t \<le> x \<and> x < fresh t + length acts \<Longrightarrow> x - fresh t < length acts"
        by arith
      then show "(if x = leaf
          then (nodes t0 leaf)\<lparr>children := children (nodes t leaf)
                  @ [fresh t ..< fresh t + length acts]\<rparr>
          else if fresh t \<le> x \<and> x < fresh t + length acts
          then (case map (\<lambda>a. (a, ps ! nat a)) acts ! (x - fresh t) of
                  (a, p) \<Rightarrow> Node_init (Some leaf) (Some a)
                              (turn env (transition env (node_s (nodes t leaf)) a))
                              ((to_play (nodes t leaf) + 1) mod 2) p)
          else nodes t0 x) = (
          if x = leaf
          then (nodes t leaf)\<lparr>node_w := v, children := children (nodes t leaf)
                  @ [fresh t ..< fresh t + length acts]\<rparr>
          else if fresh t \<le> x \<and> x < fresh t + length acts
          then Node_init (Some leaf) (Some (acts ! (x - fresh t)))
                 (turn env (transition env (node_s (nodes t leaf)) (acts ! (x - fresh t))))
                 ((to_play (nodes t leaf) + 1) mod 2)
                 (ps ! nat (acts ! (x - fresh t)))
          else nodes t x)"
        unfolding t0_def by (simp add: nth_map)
    qed
    show ?thesis unfolding nodes_eq unfolding t0_def set_node_def by simp
  qed
  finally show ?thesis unfolding acts_def .
qed



section \<open>Revisiting a terminal leaf\<close>

lemma backup_keeps_structure:
  assumes "ancestors_are t (parent (nodes t leaf)) anc"
  shows "\<exists>t'. backup t leaf = Some t' \<and> fresh t' = fresh t
           \<and> (\<forall>x. parent (nodes t' x) = parent (nodes t x)
                  \<and> children (nodes t' x) = children (nodes t x)
                  \<and> node_s (nodes t' x) = node_s (nodes t x)
                  \<and> to_play (nodes t' x) = to_play (nodes t x))
           \<and> node_n (nodes t' leaf) = node_n (nodes t leaf) + 1
           \<and> node_w (nodes t' leaf) = node_w (nodes t leaf)
           \<and> node_q (nodes t' leaf) = node_w (nodes t leaf) / real (node_n (nodes t leaf) + 1)"
proof -
  from backup_effect [OF assms] obtain t' where
    b: "backup t leaf = Some t'" "fresh t' = fresh t"
    and l: "nodes t' leaf = (nodes t leaf)\<lparr>node_n := node_n (nodes t leaf) + 1,
            node_q := node_w (nodes t leaf) / real (node_n (nodes t leaf) + 1)\<rparr>"
    and a: "\<forall>x \<in> set anc. nodes t' x = (nodes t x)\<lparr>node_n := node_n (nodes t x) + 1,
            node_w := node_w (nodes t x)
               + (if to_play (nodes t x) = to_play (nodes t leaf)
                  then node_w (nodes t leaf) else - node_w (nodes t leaf)),
            node_q := (node_w (nodes t x)
               + (if to_play (nodes t x) = to_play (nodes t leaf)
                  then node_w (nodes t leaf) else - node_w (nodes t leaf)))
               / real (node_n (nodes t x) + 1)\<rparr>"
    and o: "\<forall>x. x \<noteq> leaf \<and> x \<notin> set anc \<longrightarrow> nodes t' x = nodes t x"
    by blast
  have "parent (nodes t' x) = parent (nodes t x)
          \<and> children (nodes t' x) = children (nodes t x)
          \<and> node_s (nodes t' x) = node_s (nodes t x)
          \<and> to_play (nodes t' x) = to_play (nodes t x)" for x
  proof (cases "x = leaf")
    case True
    then show ?thesis using l by simp
  next
    case False
    show ?thesis
    proof (cases "x \<in> set anc")
      case True
      with a have "nodes t' x = (nodes t x)\<lparr>node_n := node_n (nodes t x) + 1,
            node_w := node_w (nodes t x)
               + (if to_play (nodes t x) = to_play (nodes t leaf)
                  then node_w (nodes t leaf) else - node_w (nodes t leaf)),
            node_q := (node_w (nodes t x)
               + (if to_play (nodes t x) = to_play (nodes t leaf)
                  then node_w (nodes t leaf) else - node_w (nodes t leaf)))
               / real (node_n (nodes t x) + 1)\<rparr>" by blast
      then show ?thesis by simp
    next
      case nin: False
      with False o have "nodes t' x = nodes t x" by blast
      then show ?thesis by simp
    qed
  qed
  with b l show ?thesis by simp
qed




section \<open>Properties of the policy vector\<close>

lemma below_overflow_threshold: "x < 2 ^ 1023 \<Longrightarrow> \<not> overflow_threshold \<le> x"
proof -
  have "(2::real) ^ 970 \<le> 2 ^ 1023" by (rule power_increasing) simp_all
  moreover have "(2::real) ^ 1024 = 2 * 2 ^ 1023" by simp
  ultimately have "(2::real) ^ 1023 \<le> overflow_threshold"
    unfolding overflow_threshold_def by linarith
  then show "x < 2 ^ 1023 \<Longrightarrow> \<not> overflow_threshold \<le> x" by linarith
qed

lemma overflow_threshold_small [simp]:
  "\<not> overflow_threshold \<le> 0" "\<not> overflow_threshold \<le> 1" "\<not> overflow_threshold \<le> 3"
proof -
  have "(1::real) \<le> 2 ^ 1021" by (rule one_le_power) simp
  then have "(3::real) < 2 ^ 1023" by (simp add: power_add [of 2 1021 2, simplified])
  then show "\<not> overflow_threshold \<le> 3" by (rule below_overflow_threshold)
  then show "\<not> overflow_threshold \<le> 0" "\<not> overflow_threshold \<le> 1" by linarith+
qed













text \<open>
  A small temperature makes the power overflow: with \<open>temperature = 0.001\<close> and a child
  with 3 visits, \<open>3 ** 1000.0\<close> raises \<open>OverflowError\<close>.
\<close>

lemma policy_overflow_raises:
  "get_policy tree_visited 0 (1 / 1000) 3 = Inl OverflowError"
proof -
  have "(2::real) ^ 128 \<le> 3 ^ 125" by simp
  then have "((2::real) ^ 128) ^ 8 \<le> (3 ^ 125) ^ 8" by (rule power_mono) simp
  then have "(2::real) ^ (128 * 8) \<le> 3 ^ (125 * 8)" by (simp only: power_mult)
  then have "(2::real) ^ 1024 \<le> 3 ^ 1000" by (simp only: mult_numeral_left_semiring_numeral
      num.simps mult_num_simps numeral_times_numeral)
  moreover have "(0::real) \<le> 2 ^ 970" by simp
  ultimately have "overflow_threshold \<le> 3 ^ 1000"
    unfolding overflow_threshold_def by linarith
  also have "(3::real) ^ 1000 = 3 powr 1000" by (simp only: powr_numeral zero_less_numeral)
  finally have b: "overflow_threshold \<le> 3 powr 1000" .
  have "py_pow 3 1000 = Inl OverflowError"
    unfolding py_pow_def
    by (subst if_not_P, rule overflow_threshold_small(3), subst if_not_P, simp,
        subst if_not_P, simp, subst if_P, rule b, rule refl)
  moreover have "n_pow (nodes tree_visited 1) (1 / 1000) = py_pow 3 1000"
    by (simp add: tree_visited_def Node_init_def n_pow_def py_div_def)
  ultimately have "n_pow (nodes tree_visited 1) (1 / 1000) = Inl OverflowError" by simp
  moreover have "children (nodes tree_visited 0) = [1, 2]"
    by (simp add: tree_visited_def Node_init_def)
  ultimately show ?thesis
    unfolding get_policy_def by simp
qed



section \<open>Properties of the search driver\<close>

lemma tree_ok_wf:
  assumes "tree_ok t"
  shows "wf {(c, x). c \<in> set (children (nodes t x))}"
proof -
  have "fresh t - c < fresh t - x" if "c \<in> set (children (nodes t x))" for c x
  proof -
    from assms that have "x < c \<and> c < fresh t" unfolding tree_ok_def by blast
    then show ?thesis by arith
  qed
  then have "{(c, x). c \<in> set (children (nodes t x))} \<subseteq> measure (\<lambda>x. fresh t - x)"
    by auto
  then show ?thesis by (rule wf_subset [OF wf_measure])
qed

lemma descent_allocated:
  assumes "tree_ok t"
  shows "descent t x path y \<Longrightarrow> x < fresh t \<Longrightarrow> y < fresh t"
proof (induction path arbitrary: x)
  case Nil
  then show ?case by simp
next
  case (Cons c cs)
  then have b: "get_best_child_to_explore t x 1 = Inr c" and d: "descent t c cs y" by simp_all
  from best_child_is_child [OF b] assms have "c < fresh t" unfolding tree_ok_def by blast
  from Cons.IH [OF d this] show ?case .
qed

lemma tree_ok_select:
  assumes "tree_ok t" and "x < fresh t"
  shows "\<exists>leaf. select t x = Some (Inr leaf) \<and> is_leaf (nodes t leaf) \<and> leaf < fresh t"
proof -
  from select_descends [OF tree_ok_wf [OF assms(1)], of x] obtain leaf path where
    s: "select t x = Some (Inr leaf)" "is_leaf (nodes t leaf)" "descent t x path leaf" by blast
  from descent_allocated [OF assms(1) s(3) assms(2)] s show ?thesis by blast
qed

lemma tree_ok_chain:
  assumes "tree_ok t"
  shows "\<exists>anc. ancestors_are t (parent (nodes t x)) anc"
proof (induction x rule: less_induct)
  case (less x)
  show ?case
  proof (cases "parent (nodes t x)")
    case None
    then have "ancestors_are t (parent (nodes t x)) []" by simp
    then show ?thesis by blast
  next
    case (Some p)
    with assms have "p < x" unfolding tree_ok_def by blast
    from less.IH [OF this] obtain anc where "ancestors_are t (parent (nodes t p)) anc" by blast
    then have "ancestors_are t (parent (nodes t x)) (p # anc)" unfolding Some by simp
    then show ?thesis by blast
  qed
qed

lemma tree_ok_backup:
  assumes "tree_ok t"
  shows "\<exists>t'. backup t leaf = Some t' \<and> tree_ok t' \<and> fresh t' = fresh t"
proof -
  from tree_ok_chain [OF assms, of leaf] obtain anc where
    "ancestors_are t (parent (nodes t leaf)) anc" by blast
  from backup_keeps_structure [OF this] obtain t' where
    b: "backup t leaf = Some t'" "fresh t' = fresh t"
    and st: "\<forall>x. parent (nodes t' x) = parent (nodes t x)
                  \<and> children (nodes t' x) = children (nodes t x)
                  \<and> node_s (nodes t' x) = node_s (nodes t x)
                  \<and> to_play (nodes t' x) = to_play (nodes t x)" by blast
  from assms have "tree_ok t'" unfolding tree_ok_def b(2) using st by simp
  with b show ?thesis by blast
qed

lemma tree_ok_expand:
  assumes ok: "tree_ok t" and alloc: "leaf < fresh t"
  shows "tree_ok (expand_and_evaluate t leaf m env)
         \<and> fresh t \<le> fresh (expand_and_evaluate t leaf m env)"
proof (cases "is_terminal env (node_s (nodes t leaf))")
  case True
  show ?thesis
    unfolding expand_terminal [OF True] using ok unfolding tree_ok_def by simp
next
  case False
  obtain ps v where m: "m (board env (node_s (nodes t leaf))) = (ps, v)"
    by (cases "m (board env (node_s (nodes t leaf)))")
  define acts where "acts = filter (\<lambda>a. is_legal env a (node_s (nodes t leaf)))
                               (map int [0..<length ps])"
  define t' where "t' = expand_and_evaluate t leaf m env"
  note E = expand_nonterminal [where m = m and env = env and t = t and leaf = leaf
      and ps = ps and v = v, OF False alloc m, folded acts_def t'_def]
  have fr: "fresh t' = fresh t + length acts" unfolding E by simp
  have ch: "x < c \<and> c < fresh t'" if "c \<in> set (children (nodes t' x))" for x c
  proof -
    consider "x = leaf" | "x \<noteq> leaf" "fresh t \<le> x \<and> x < fresh t + length acts"
      | "x \<noteq> leaf" "\<not> (fresh t \<le> x \<and> x < fresh t + length acts)" by blast
    then show ?thesis
    proof cases
      case 1
      with that have "c \<in> set (children (nodes t leaf)) \<or> (fresh t \<le> c \<and> c < fresh t + length acts)"
        unfolding E by auto
      then show ?thesis
      proof
        assume "c \<in> set (children (nodes t leaf))"
        with ok have "leaf < c \<and> c < fresh t" unfolding tree_ok_def by blast
        then show ?thesis unfolding fr 1 by simp
      next
        assume "fresh t \<le> c \<and> c < fresh t + length acts"
        with alloc show ?thesis unfolding fr 1 by simp
      qed
    next
      case 2
      with that show ?thesis unfolding E by (simp add: Node_init_def)
    next
      case 3
      with that have "c \<in> set (children (nodes t x))" unfolding E by auto
      with ok have "x < c \<and> c < fresh t" unfolding tree_ok_def by blast
      then show ?thesis unfolding fr by simp
    qed
  qed
  have pa: "p < x" if "parent (nodes t' x) = Some p" for x p
  proof -
    consider "x = leaf" | "x \<noteq> leaf" "fresh t \<le> x \<and> x < fresh t + length acts"
      | "x \<noteq> leaf" "\<not> (fresh t \<le> x \<and> x < fresh t + length acts)" by blast
    then show ?thesis
    proof cases
      case 1
      with that have "parent (nodes t leaf) = Some p" unfolding E by simp
      with ok show ?thesis unfolding tree_ok_def 1 by blast
    next
      case 2
      with that have "p = leaf" unfolding E by (simp add: Node_init_def)
      with 2 alloc show ?thesis by simp
    next
      case 3
      with that have "parent (nodes t x) = Some p" unfolding E by auto
      with ok show ?thesis unfolding tree_ok_def by blast
    qed
  qed
  from ch pa have "tree_ok t'" unfolding tree_ok_def by blast
  with fr show ?thesis unfolding t'_def by simp
qed

lemma simulation_total:
  assumes ok: "tree_ok t" and rt: "root_node < fresh t"
  shows "\<exists>leaf t'. select t root_node = Some (Inr leaf)
           \<and> backup (expand_and_evaluate t leaf m env) leaf = Some t'
           \<and> tree_ok t' \<and> root_node < fresh t'"
proof -
  from tree_ok_select [OF ok rt] obtain leaf where
    s: "select t root_node = Some (Inr leaf)" "leaf < fresh t" by blast
  from tree_ok_expand [OF ok s(2), of m env] have
    e: "tree_ok (expand_and_evaluate t leaf m env)"
       "fresh t \<le> fresh (expand_and_evaluate t leaf m env)" by simp_all
  from tree_ok_backup [OF e(1), of leaf] obtain t' where
    b: "backup (expand_and_evaluate t leaf m env) leaf = Some t'" "tree_ok t'"
       "fresh t' = fresh (expand_and_evaluate t leaf m env)" by blast
  from rt e(2) b(3) have "root_node < fresh t'" by simp
  with s(1) b(1,2) show ?thesis by blast
qed

lemma search_loop_trace:
  assumes "tree_ok t" and "root_node < fresh t"
  shows "\<exists>ts. length ts = length xs + 1 \<and> hd ts = t
           \<and> (\<forall>i < length xs. simulation_step (ts ! i) root_node m env (ts ! Suc i))
           \<and> search_loop xs t root_node m env = Some (Inr (last ts))"
  using assms
proof (induction xs arbitrary: t)
  case Nil
  have "length [t] = length ([] :: int list) + 1 \<and> hd [t] = t
           \<and> (\<forall>i < length ([] :: int list). simulation_step ([t] ! i) root_node m env ([t] ! Suc i))
           \<and> search_loop [] t root_node m env = Some (Inr (last [t]))" by simp
  then show ?case by blast
next
  case (Cons x xs)
  from simulation_total [OF Cons.prems, of m env] obtain leaf t1 where
    s: "select t root_node = Some (Inr leaf)"
    and b: "backup (expand_and_evaluate t leaf m env) leaf = Some t1"
    and ok1: "tree_ok t1" and rt1: "root_node < fresh t1" by blast
  from Cons.IH [OF ok1 rt1] obtain ts where
    ts: "length ts = length xs + 1" "hd ts = t1"
    "\<forall>i < length xs. simulation_step (ts ! i) root_node m env (ts ! Suc i)"
    "search_loop xs t1 root_node m env = Some (Inr (last ts))" by blast
  from ts(1) have ne: "ts \<noteq> []" by auto
  then have h0: "ts ! 0 = t1" using ts(2) by (simp add: hd_conv_nth)
  have step0: "simulation_step t root_node m env t1"
    unfolding simulation_step_def using s b by simp
  have steps: "simulation_step ((t # ts) ! i) root_node m env ((t # ts) ! Suc i)"
    if "i < length (x # xs)" for i
  proof (cases i)
    case 0
    then show ?thesis using step0 h0 by simp
  next
    case (Suc j)
    with that have "j < length xs" by simp
    with ts(3) show ?thesis unfolding Suc by simp
  qed
  have run: "search_loop (x # xs) t root_node m env = Some (Inr (last (t # ts)))"
    using s b ts(4) ne by simp
  have "length (t # ts) = length (x # xs) + 1 \<and> hd (t # ts) = t
           \<and> (\<forall>i < length (x # xs).
                 simulation_step ((t # ts) ! i) root_node m env ((t # ts) ! Suc i))
           \<and> search_loop (x # xs) t root_node m env = Some (Inr (last (t # ts)))"
    using ts(1) steps run by simp
  then show ?case by blast
qed

text \<open>
  Claim C8. On a store in creation order with the root in it, \<open>search\<close> passes through
  exactly \<open>num_simulations\<close> simulations (800 when the argument is left out; none when it
  is negative): there are stores \<open>ts\<^sub>0 = t, \<dots>, ts\<^sub>N\<close>, each obtained from the one before by
  select, then expand-and-evaluate on the returned leaf, then backup, none of which raises
  or fails to return; and the call returns exactly what \<open>get_policy\<close> gives at the root of
  the last store for the temperature (1 when left out) and \<open>env.action_space_size\<close>, be it
  a vector or an exception.
\<close>

theorem search_runs_fixed_budget:
  assumes "tree_ok t" and "root_node < fresh t"
  shows "\<exists>ts. length ts = nat (case num_simulations of None \<Rightarrow> 800 | Some k \<Rightarrow> k) + 1
     \<and> hd ts = t
     \<and> (\<forall>i < nat (case num_simulations of None \<Rightarrow> 800 | Some k \<Rightarrow> k).
           simulation_step (ts ! i) root_node m env (ts ! Suc i))
     \<and> search t root_node m env num_simulations temperature =
         Some (case get_policy (last ts) root_node
                      (case temperature of None \<Rightarrow> 1 | Some x \<Rightarrow> x) (action_space_size env) of
                 Inl e \<Rightarrow> Inl e
               | Inr pol \<Rightarrow> Inr (last ts, pol))"
proof -
  define N where "N = (case num_simulations of None \<Rightarrow> 800 | Some k \<Rightarrow> k)"
  define T where "T = (case temperature of None \<Rightarrow> 1 | Some x \<Rightarrow> (x::real))"
  have len: "length (py_range N) = nat N" by (simp add: py_range_def)
  from search_loop_trace [OF assms, of "py_range N" m env] obtain ts where
    ts: "length ts = nat N + 1" "hd ts = t"
    "\<forall>i < nat N. simulation_step (ts ! i) root_node m env (ts ! Suc i)"
    "search_loop (py_range N) t root_node m env = Some (Inr (last ts))"
    unfolding len by blast
  have "search t root_node m env num_simulations temperature =
         Some (case get_policy (last ts) root_node T (action_space_size env) of
                 Inl e \<Rightarrow> Inl e
               | Inr pol \<Rightarrow> Inr (last ts, pol))"
    unfolding search_def Let_def N_def [symmetric] T_def [symmetric] ts(4)
    by (simp split: sum.splits)
  with ts(1,2,3) show ?thesis unfolding N_def T_def by blast
qed

theorem search_runs_fixed_budget_witness:
  "tree_ok toy_root \<and> 0 < fresh toy_root
   \<and> (\<exists>ts. length ts = 3 \<and> hd ts = toy_root
         \<and> simulation_step (ts ! 0) 0 toy_model toy_env (ts ! 1)
         \<and> simulation_step (ts ! 1) 0 toy_model toy_env (ts ! 2)
         \<and> search toy_root 0 toy_model toy_env (Some 2) (Some 1) =
             Some (case get_policy (last ts) 0 1 3 of
                     Inl e \<Rightarrow> Inl e
                   | Inr pol \<Rightarrow> Inr (last ts, pol)))
   \<and> (\<exists>ts. length ts = 801 \<and> hd ts = toy_root
         \<and> search toy_root 0 toy_model toy_env None None =
             Some (case get_policy (last ts) 0 1 3 of
                     Inl e \<Rightarrow> Inl e
                   | Inr pol \<Rightarrow> Inr (last ts, pol)))"
proof -
  have ok: "tree_ok toy_root" by (simp add: tree_ok_def toy_root_def Node_init_def)
  have rt: "0 < fresh toy_root" by (simp add: toy_root_def)
  have a: "action_space_size toy_env = 3" by (simp add: toy_env_def)
  from search_runs_fixed_budget [OF ok rt, of "Some 2" toy_model toy_env "Some 1"]
  obtain ts where ts: "length ts = 3" "hd ts = toy_root"
    "\<forall>i < 2. simulation_step (ts ! i) 0 toy_model toy_env (ts ! Suc i)"
    "search toy_root 0 toy_model toy_env (Some 2) (Some 1) =
             Some (case get_policy (last ts) 0 1 3 of
                     Inl e \<Rightarrow> Inl e
                   | Inr pol \<Rightarrow> Inr (last ts, pol))"
    unfolding a by auto
  from ts(3) have "simulation_step (ts ! 0) 0 toy_model toy_env (ts ! 1)"
    "simulation_step (ts ! 1) 0 toy_model toy_env (ts ! 2)"
    by (simp_all add: numeral_2_eq_2)
  with ts have first: "\<exists>ts. length ts = 3 \<and> hd ts = toy_root
         \<and> simulation_step (ts ! 0) 0 toy_model toy_env (ts ! 1)
         \<and> simulation_step (ts ! 1) 0 toy_model toy_env (ts ! 2)
         \<and> search toy_root 0 toy_model toy_env (Some 2) (Some 1) =
             Some (case get_policy (last ts) 0 1 3 of
                     Inl e \<Rightarrow> Inl e
                   | Inr pol \<Rightarrow> Inr (last ts, pol))" by blast
  from search_runs_fixed_budget [OF ok rt, of None toy_model toy_env None]
  have second: "\<exists>ts. length ts = 801 \<and> hd ts = toy_root
         \<and> search toy_root 0 toy_model toy_env None None =
             Some (case get_policy (last ts) 0 1 3 of
                     Inl e \<Rightarrow> Inl e
                   | Inr pol \<Rightarrow> Inr (last ts, pol))"
    unfolding a by auto
  from ok rt first second show ?thesis by blast
qed

text \<open>
  One simulation from a fresh, non-terminal root expands the root and backs up; its
  children then have no visits, the total weight is zero, and the final \<open>get_policy\<close>
  raises: \<open>search\<close> with a budget of one ends in \<open>ZeroDivisionError\<close>.
\<close>

lemma search_one_simulation_raises:
  "search toy_root 0 toy_model toy_env (Some 1) (Some 1) = Some (Inl ZeroDivisionError)"
proof -
  define t1 where "t1 = expand_and_evaluate toy_root 0 toy_model toy_env"
  have sel: "select toy_root 0 = Some (Inr 0)"
    by (subst select.simps) (simp add: is_leaf_def toy_root_def Node_init_def)
  have nt: "\<not> is_terminal toy_env (node_s (nodes toy_root 0))"
    by (simp add: toy_root_def toy_env_def Node_init_def)
  have al: "0 < fresh toy_root" by (simp add: toy_root_def)
  have m: "toy_model (board toy_env (node_s (nodes toy_root 0))) = ([1/5, 1/2, 3/10], 7/10)"
    by (simp add: toy_model_def)
  have acts: "filter (\<lambda>a. is_legal toy_env a (node_s (nodes toy_root 0)))
                (map int [0..<length [1/5, 1/2, 3/10 :: real]]) = [0, 2]"
    by (simp add: toy_env_def)
  note E = expand_nonterminal [where m = toy_model and env = toy_env and t = toy_root
      and leaf = 0 and ps = "[1/5, 1/2, 3/10]" and v = "7/10", OF nt al m,
      folded t1_def, unfolded acts]
  have up: "[Suc 0 ..< 3] = [1, 2]" by (simp add: upt_rec)
  have c1: "children (nodes t1 0) = [1, 2]"
    unfolding E using up by (simp add: toy_root_def Node_init_def)
  have p1: "parent (nodes t1 0) = None"
    unfolding E by (simp add: toy_root_def Node_init_def)
  have n1: "node_n (nodes t1 1) = 0" "node_n (nodes t1 2) = 0"
    unfolding E by (simp_all add: toy_root_def Node_init_def)
  have "ancestors_are t1 (parent (nodes t1 0)) []" unfolding p1 by simp
  from backup_effect [OF this] obtain t2 where
    b: "backup t1 0 = Some t2"
    and l: "nodes t2 0 = (nodes t1 0)\<lparr>node_n := node_n (nodes t1 0) + 1,
            node_q := node_w (nodes t1 0) / real (node_n (nodes t1 0) + 1)\<rparr>"
    and o: "\<forall>x. x \<noteq> 0 \<and> x \<notin> set [] \<longrightarrow> nodes t2 x = nodes t1 x"
    by blast
  from l c1 have c2: "children (nodes t2 0) = [1, 2]" by simp
  from o have e1: "nodes t2 1 = nodes t1 1" and e2: "nodes t2 2 = nodes t1 2" by simp_all
  have n2: "node_n (nodes t2 1) = 0" "node_n (nodes t2 2) = 0"
    unfolding e1 e2 by (rule n1)+
  have loop: "search_loop (py_range 1) toy_root 0 toy_model toy_env = Some (Inr t2)"
    using sel b unfolding t1_def by (simp add: py_range_def)
  have pol: "get_policy t2 0 1 (action_space_size toy_env) = Inl ZeroDivisionError"
    unfolding get_policy_def c2
    by (simp add: n2 n2 [unfolded One_nat_def] n_pow_def py_div_def py_pow_def)
  show ?thesis
    unfolding search_def by (simp add: loop pol)
qed

end
